theory Spec2Isabelle
  imports Main "HOL-Library.Word"
begin

section \<open>The ring buffer of \<open>include/ringbuffer.hpp\<close>\<close>

text \<open>
  \<open>ubn::ringbuffer<T, capacity>\<close> has three members: the array \<open>p_buffer\<close>, allocated
  by \<open>new T[capacity + 1]{}\<close>, and the two \<open>std::size_t\<close> cursors \<open>m_capacity\<close> (the
  spec's freeSlack) and \<open>m_position\<close> (the spec's writeCount). \<open>std::size_t\<close> is taken
  as the 64-bit unsigned integer of the usual LP64 targets: \<open>+\<close>, \<open>-\<close> and \<open>++\<close> wrap
  around at \<open>2 ^ 64\<close>. The template parameter \<open>capacity\<close> is the first argument \<open>N\<close> of
  every operation, and the value-initialised \<open>T\<close> is the argument \<open>d\<close> of the
  constructor.
\<close>

type_synonym size_t = "64 word"

record 'a ringbuffer =
  p_buffer :: "'a list"
  m_capacity :: size_t
  m_position :: size_t

text \<open>
  The member initialisers. The array length \<open>capacity + 1\<close> is computed in
  \<open>std::size_t\<close>, as the source does.
\<close>

definition fresh :: "size_t \<Rightarrow> 'a \<Rightarrow> 'a ringbuffer" where
  "fresh N d = \<lparr>p_buffer = replicate (unat (N + 1)) d, m_capacity = N, m_position = 0\<rparr>"

text \<open>
  An array access outside the allocated slots, and \<open>%\<close> with a zero divisor, have no
  defined behaviour in C++: they are the result \<open>None\<close> of the model.
\<close>

definition slot :: "size_t \<Rightarrow> size_t \<Rightarrow> nat option" where
  "slot x N = (if N = 0 then None else Some (unat (x mod N)))"

definition load :: "'a list \<Rightarrow> nat \<Rightarrow> 'a option" where
  "load xs i = (if i < length xs then Some (xs ! i) else None)"

definition store :: "'a list \<Rightarrow> nat \<Rightarrow> 'a \<Rightarrow> 'a list option" where
  "store xs i v = (if i < length xs then Some (xs[i := v]) else None)"

text \<open>\<open>return (m_capacity ? --m_capacity : false) ? false : true;\<close>\<close>

definition is_overwrite :: "'a ringbuffer \<Rightarrow> bool \<times> 'a ringbuffer" where
  "is_overwrite s =
     (if m_capacity s \<noteq> 0
      then (let s' = s\<lparr>m_capacity := m_capacity s - 1\<rparr>
            in (if m_capacity s' \<noteq> 0 then False else True, s'))
      else (True, s))"

text \<open>\<open>p_buffer[m_position++ % capacity] = __v; return is_overwrite();\<close>\<close>

definition emplace :: "size_t \<Rightarrow> 'a \<Rightarrow> 'a ringbuffer \<Rightarrow> (bool \<times> 'a ringbuffer) option" where
  "emplace N v s =
     (case slot (m_position s) N of
        None \<Rightarrow> None
      | Some i \<Rightarrow>
          (case store (p_buffer s) i v of
             None \<Rightarrow> None
           | Some b \<Rightarrow> Some (is_overwrite (s\<lparr>p_buffer := b, m_position := m_position s + 1\<rparr>))))"

text \<open>\<open>return !(m_capacity != capacity);\<close>\<close>

definition is_empty :: "size_t \<Rightarrow> 'a ringbuffer \<Rightarrow> bool" where
  "is_empty N s = (\<not> (m_capacity s \<noteq> N))"

text \<open>\<open>return m_capacity ? false : true;\<close>\<close>

definition is_full :: "'a ringbuffer \<Rightarrow> bool" where
  "is_full s = (if m_capacity s \<noteq> 0 then False else True)"

text \<open>\<open>return capacity - m_capacity;\<close>\<close>

definition size_rb :: "size_t \<Rightarrow> 'a ringbuffer \<Rightarrow> size_t" where
  "size_rb N s = N - m_capacity s"

text \<open>
  \<open>return p_buffer[is_empty() ? capacity : (m_position + m_capacity++ - capacity) % capacity];\<close>
  The post-increment yields the old \<open>m_capacity\<close> to the index expression.
\<close>

definition pull :: "size_t \<Rightarrow> 'a ringbuffer \<Rightarrow> ('a \<times> 'a ringbuffer) option" where
  "pull N s =
     (if is_empty N s
      then map_option (\<lambda>x. (x, s)) (load (p_buffer s) (unat N))
      else (case slot (m_position s + m_capacity s - N) N of
              None \<Rightarrow> None
            | Some i \<Rightarrow>
                map_option (\<lambda>x. (x, s\<lparr>m_capacity := m_capacity s + 1\<rparr>)) (load (p_buffer s) i)))"

text \<open>\<open>m_capacity = capacity; m_position = 0;\<close>\<close>

definition reset :: "size_t \<Rightarrow> 'a ringbuffer \<Rightarrow> 'a ringbuffer" where
  "reset N s = s\<lparr>m_capacity := N, m_position := 0\<rparr>"

subsection \<open>Sequences of calls\<close>

text \<open>
  A caller's calls on one buffer, in order, and what each call returns: the flag of
  \<open>emplace\<close>, the item of \<open>pull\<close>, nothing for \<open>reset\<close>.
\<close>

datatype 'a call = Emplace 'a | Pull | Reset

datatype 'a ret = Flag bool | Item 'a | Void

fun exec :: "size_t \<Rightarrow> 'a call \<Rightarrow> 'a ringbuffer \<Rightarrow> ('a ret \<times> 'a ringbuffer) option" where
  "exec N (Emplace v) s = map_option (\<lambda>(b, s'). (Flag b, s')) (emplace N v s)"
| "exec N Pull s = map_option (\<lambda>(x, s'). (Item x, s')) (pull N s)"
| "exec N Reset s = Some (Void, reset N s)"

fun run :: "size_t \<Rightarrow> 'a call list \<Rightarrow> 'a ringbuffer \<Rightarrow> ('a ret list \<times> 'a ringbuffer) option" where
  "run N [] s = Some ([], s)"
| "run N (c # cs) s =
     (case exec N c s of
        None \<Rightarrow> None
      | Some (r, s') \<Rightarrow>
          (case run N cs s' of
             None \<Rightarrow> None
           | Some (rs, s'') \<Rightarrow> Some (r # rs, s'')))"

definition rets :: "size_t \<Rightarrow> 'a call list \<Rightarrow> 'a ringbuffer \<Rightarrow> 'a ret list option" where
  "rets N cs s = map_option fst (run N cs s)"

definition final :: "size_t \<Rightarrow> 'a call list \<Rightarrow> 'a ringbuffer \<Rightarrow> 'a ringbuffer option" where
  "final N cs s = map_option snd (run N cs s)"

subsection \<open>Auxiliary notions of the proofs\<close>

text \<open>
  The largest \<open>std::size_t\<close>, \<open>2 ^ 64 - 1\<close>. For this capacity \<open>capacity + 1\<close> wraps
  around to \<open>0\<close>: \<open>new T[0]\<close> succeeds and allocates no slot.
\<close>

definition SIZE_MAX :: size_t where
  "SIZE_MAX = - 1"

text \<open>
  The storage has its \<open>N + 1\<close> slots, the extra slot holds the value \<open>d\<close>, and
  \<open>m_capacity\<close> is at most the capacity.
\<close>

definition sound :: "size_t \<Rightarrow> 'a \<Rightarrow> 'a ringbuffer \<Rightarrow> bool" where
  "sound N d s =
     (length (p_buffer s) = Suc (unat N) \<and> p_buffer s ! unat N = d \<and> m_capacity s \<le> N)"

text \<open>
  The number of \<open>emplace\<close> calls since the last \<open>reset\<close> (since construction when
  there was none), as an unbounded natural number; the first argument is the count so
  far. It is a quantity of the specification, which the code only holds modulo
  \<open>2 ^ 64\<close> in \<open>m_position\<close>.
\<close>

fun count_writes :: "nat \<Rightarrow> 'a call list \<Rightarrow> nat" where
  "count_writes n [] = n"
| "count_writes n (Emplace v # cs) = count_writes (Suc n) cs"
| "count_writes n (Pull # cs) = count_writes n cs"
| "count_writes n (Reset # cs) = count_writes 0 cs"

definition counted :: "size_t \<Rightarrow> nat \<Rightarrow> 'a ringbuffer \<Rightarrow> bool" where
  "counted N n s =
     (m_position s = of_nat n \<and> m_capacity s \<le> N \<and> unat N - unat (m_capacity s) \<le> n)"

section \<open>Single calls\<close>

lemma slot_eq: "N \<noteq> 0 \<Longrightarrow> slot x N = Some (unat x mod unat N)"
  by (simp add: slot_def unat_mod)

lemma slot_lt: "N \<noteq> 0 \<Longrightarrow> unat x mod unat N < unat N"
  by (simp add: unat_gt_0)

lemma one_le_ne: "1 \<le> N \<Longrightarrow> N \<noteq> 0" for N :: size_t
  by auto

lemma unat_succ_cap: "N \<noteq> - 1 \<Longrightarrow> unat (N + 1) = Suc (unat N)" for N :: size_t
  by (metis add.commute unatSuc eq_neg_iff_add_eq_0)

lemma below_SIZE_MAX: "N < SIZE_MAX \<Longrightarrow> unat (N + 1) = Suc (unat N)"
  by (rule unat_succ_cap) (auto simp: SIZE_MAX_def)

lemma fresh_length: "N < SIZE_MAX \<Longrightarrow> length (replicate (unat (N + 1)) d) = Suc (unat N)"
  by (simp add: below_SIZE_MAX)

lemma emplace_eq:
  assumes "N \<noteq> 0" and "length (p_buffer s) = Suc (unat N)"
  shows "emplace N v s =
    Some (is_overwrite (s\<lparr>p_buffer := (p_buffer s)[unat (m_position s) mod unat N := v],
                           m_position := m_position s + 1\<rparr>))"
  using assms slot_lt [of N "m_position s"]
  by (simp add: emplace_def slot_eq store_def)

lemma pull_empty_eq:
  assumes "length (p_buffer s) = Suc (unat N)" and "m_capacity s = N"
  shows "pull N s = Some (p_buffer s ! unat N, s)"
  using assms by (simp add: pull_def is_empty_def load_def)

lemma pull_nonempty_eq:
  assumes "N \<noteq> 0" and "length (p_buffer s) = Suc (unat N)" and "m_capacity s \<noteq> N"
  shows "pull N s =
    Some (p_buffer s ! (unat (m_position s + m_capacity s - N) mod unat N),
          s\<lparr>m_capacity := m_capacity s + 1\<rparr>)"
  using assms slot_lt [of N "m_position s + m_capacity s - N"]
  by (simp add: pull_def is_empty_def slot_eq load_def)

lemma reset_eq: "reset N s = \<lparr>p_buffer = p_buffer s, m_capacity = N, m_position = 0\<rparr>"
  by (simp add: reset_def)

lemma run_append:
  "run N (xs @ ys) s =
     (case run N xs s of
        None \<Rightarrow> None
      | Some (rs, s') \<Rightarrow>
          (case run N ys s' of
             None \<Rightarrow> None
           | Some (rs', s'') \<Rightarrow> Some (rs @ rs', s'')))"
  by (induction xs arbitrary: s) (auto split: option.splits)

lemma final_Cons:
  "final N (c # cs) s = (case exec N c s of None \<Rightarrow> None | Some (r, s') \<Rightarrow> final N cs s')"
  by (auto simp: final_def split: option.splits)

lemma final_append:
  "final N (xs @ ys) s = (case final N xs s of None \<Rightarrow> None | Some s' \<Rightarrow> final N ys s')"
  by (auto simp: final_def run_append split: option.splits)

lemma first_call_fails:
  "exec N c s = None \<Longrightarrow> 0 < k \<Longrightarrow> rets N (replicate k c @ cs) s = None"
  by (cases k) (simp_all add: rets_def)

subsection \<open>Cursor arithmetic\<close>

lemma dec_le: "c \<noteq> 0 \<Longrightarrow> c \<le> N \<Longrightarrow> c - 1 \<le> N" for c :: size_t
  by unat_arith

lemma inc_le_cap: "c \<noteq> N \<Longrightarrow> c \<le> N \<Longrightarrow> c + 1 \<le> N" for c :: size_t
  by (simp add: inc_le)

lemma unat_of_nat_cap: "k \<le> unat N \<Longrightarrow> unat (of_nat k :: size_t) = k" for N :: size_t
  by (rule le_unat_uoi)

lemma of_nat_eq_cap: "k \<le> unat N \<Longrightarrow> (of_nat k = N) = (k = unat N)" for N :: size_t
  by (metis le_unat_uoi order_refl word_unat_eq_iff)

lemma of_nat_inj_cap:
  "j \<le> unat N \<Longrightarrow> k \<le> unat N \<Longrightarrow> ((of_nat j :: size_t) = of_nat k) = (j = k)" for N :: size_t
  by (metis le_unat_uoi)

lemma cap_sub_ne:
  fixes N :: size_t
  assumes "j < k" and "k \<le> unat N"
  shows "N - of_nat k + of_nat j \<noteq> N"
proof
  assume "N - of_nat k + of_nat j = N"
  then have "(of_nat j :: size_t) = of_nat k" by (simp add: algebra_simps)
  with assms show False using of_nat_inj_cap [of j N k] by simp
qed

subsection \<open>What every call preserves\<close>

lemma is_overwrite_le:
  "m_capacity s \<le> N \<Longrightarrow> m_capacity (snd (is_overwrite s)) \<le> N"
  by (simp add: is_overwrite_def Let_def dec_le)

lemma is_overwrite_buffer: "p_buffer (snd (is_overwrite s)) = p_buffer s"
  by (simp add: is_overwrite_def Let_def)

lemma emplace_le:
  assumes "emplace N v s = Some (b, s')" and "m_capacity s \<le> N"
  shows "m_capacity s' \<le> N"
proof -
  from assms(1) have "\<exists>t. is_overwrite t = (b, s') \<and> m_capacity t = m_capacity s"
    by (auto simp: emplace_def split: option.splits)
  then obtain t where "is_overwrite t = (b, s')" and "m_capacity t = m_capacity s"
    by blast
  then show ?thesis using is_overwrite_le [of t N] assms(2) by simp
qed

lemma pull_le:
  assumes "pull N s = Some (x, s')" and "m_capacity s \<le> N"
  shows "m_capacity s' \<le> N"
  using assms
  by (auto simp: pull_def is_empty_def inc_le_cap split: if_splits option.splits)

lemma exec_le:
  assumes "exec N c s = Some (r, s')" and "m_capacity s \<le> N"
  shows "m_capacity s' \<le> N"
  using assms
  by (cases c) (auto simp: reset_def dest: emplace_le pull_le)

lemma run_le:
  "run N cs s = Some (rs, s') \<Longrightarrow> m_capacity s \<le> N \<Longrightarrow> m_capacity s' \<le> N"
proof (induction cs arbitrary: s rs)
  case Nil
  then show ?case by simp
next
  case (Cons c cs)
  from Cons.prems(1) obtain r t rs' where c: "exec N c s = Some (r, t)"
    and r: "run N cs t = Some (rs', s')"
    by (auto split: option.splits)
  from exec_le [OF c Cons.prems(2)] have "m_capacity t \<le> N" .
  with Cons.IH [OF r] show ?case .
qed

text \<open>No call changes the number of slots.\<close>

lemma is_overwrite_length: "length (p_buffer (snd (is_overwrite s))) = length (p_buffer s)"
  by (simp add: is_overwrite_buffer)

lemma exec_length:
  assumes "exec N c s = Some (r, s')"
  shows "length (p_buffer s') = length (p_buffer s)"
proof (cases c)
  case (Emplace v)
  with assms obtain b where "emplace N v s = Some (b, s')" by auto
  then have "\<exists>t. is_overwrite t = (b, s') \<and> length (p_buffer t) = length (p_buffer s)"
    by (auto simp: emplace_def store_def split: option.splits if_splits)
  then obtain t where "is_overwrite t = (b, s')" and "length (p_buffer t) = length (p_buffer s)"
    by blast
  then show ?thesis using is_overwrite_length [of t] by simp
next
  case Pull
  with assms show ?thesis
    by (auto simp: pull_def split: if_splits option.splits)
next
  case Reset
  with assms show ?thesis by (auto simp: reset_def)
qed

lemma run_length:
  "run N cs s = Some (rs, s') \<Longrightarrow> length (p_buffer s') = length (p_buffer s)"
proof (induction cs arbitrary: s rs)
  case Nil
  then show ?case by simp
next
  case (Cons c cs)
  from Cons.prems obtain r t rs' where c: "exec N c s = Some (r, t)"
    and r: "run N cs t = Some (rs', s')"
    by (auto split: option.splits)
  from Cons.IH [OF r] exec_length [OF c] show ?case by simp
qed

lemma sound_fresh: "N < SIZE_MAX \<Longrightarrow> sound N d (fresh N d)"
  by (simp add: sound_def fresh_def below_SIZE_MAX nth_Cons')

lemma sound_emplace:
  assumes "N \<noteq> 0" and "sound N d s"
  shows "\<exists>b s'. emplace N v s = Some (b, s') \<and> sound N d s'"
proof -
  let ?t = "s\<lparr>p_buffer := (p_buffer s)[unat (m_position s) mod unat N := v],
               m_position := m_position s + 1\<rparr>"
  from assms have len: "length (p_buffer s) = Suc (unat N)" by (simp add: sound_def)
  have eq: "emplace N v s = Some (is_overwrite ?t)" by (rule emplace_eq [OF assms(1) len])
  have "sound N d (snd (is_overwrite ?t))"
    using assms slot_lt [OF assms(1), of "m_position s"] is_overwrite_le [of ?t N]
    by (simp add: sound_def is_overwrite_buffer)
  with eq show ?thesis by (metis prod.collapse)
qed

lemma sound_pull:
  assumes "N \<noteq> 0" and "sound N d s"
  shows "\<exists>x s'. pull N s = Some (x, s') \<and> sound N d s'"
proof (cases "m_capacity s = N")
  case True
  with assms show ?thesis by (simp add: pull_empty_eq sound_def)
next
  case False
  with assms show ?thesis by (simp add: pull_nonempty_eq sound_def inc_le_cap)
qed

lemma sound_reset: "sound N d s \<Longrightarrow> sound N d (reset N s)"
  by (simp add: sound_def reset_def)

lemma sound_exec:
  assumes "N \<noteq> 0" and "sound N d s"
  shows "\<exists>r s'. exec N c s = Some (r, s') \<and> sound N d s'"
proof (cases c)
  case (Emplace v)
  with sound_emplace [OF assms, of v] show ?thesis by auto
next
  case Pull
  with sound_pull [OF assms] show ?thesis by auto
next
  case Reset
  with sound_reset [OF assms(2)] show ?thesis by simp
qed

lemma sound_run:
  assumes "N \<noteq> 0"
  shows "sound N d s \<Longrightarrow> \<exists>rs s'. run N cs s = Some (rs, s') \<and> sound N d s'"
proof (induction cs arbitrary: s)
  case Nil
  then show ?case by simp
next
  case (Cons c cs)
  from sound_exec [OF assms Cons.prems, of c]
  obtain r t where c: "exec N c s = Some (r, t)" and t: "sound N d t" by blast
  from Cons.IH [OF t] obtain rs u where "run N cs t = Some (rs, u)" and "sound N d u" by blast
  with c show ?case by simp
qed

lemma run_sound:
  assumes "N \<noteq> 0" and "N < SIZE_MAX" and "run N cs (fresh N d) = Some (rs, s)"
  shows "sound N d s"
  using sound_run [OF assms(1) sound_fresh [OF assms(2)], where d = d and cs = cs] assms(3)
  by auto

text \<open>
  With a capacity from \<open>1\<close> to \<open>SIZE_MAX - 1\<close> every sequence of calls on a new
  buffer is defined: no call leaves the allocated slots.
\<close>

lemma run_defined:
  assumes "1 \<le> N" and "N < SIZE_MAX"
  shows "\<exists>rs s. run N cs (fresh N d) = Some (rs, s)"
  using sound_run [OF one_le_ne [OF assms(1)] sound_fresh [OF assms(2)], where d = d and cs = cs]
  by blast

subsection \<open>Concrete runs with capacity 3\<close>

lemma three_valid: "(1::size_t) \<le> 3" "(3::size_t) < SIZE_MAX"
  by (simp_all add: SIZE_MAX_def)

lemma unat_three: "unat (3::size_t) = Suc (Suc (Suc 0))"
  by simp

lemma unat_four: "unat (3 + 1 :: size_t) = Suc (Suc (Suc (Suc 0)))"
  by simp

lemma fresh_three: "fresh 3 d = \<lparr>p_buffer = [d, d, d, d], m_capacity = 3, m_position = 0\<rparr>"
  unfolding fresh_def unat_four by simp

lemma run_one_in_one_out:
  "run 3 [Emplace (1::nat), Pull] (fresh 3 0) =
     Some ([Flag False, Item 1], \<lparr>p_buffer = [1, 0, 0, 0], m_capacity = 3, m_position = 1\<rparr>)"
  by (simp add: fresh_three emplace_def pull_def slot_def store_def load_def is_overwrite_def
      is_empty_def)

lemma run_two_in_one_out:
  "run 3 [Emplace (1::nat), Emplace 2, Pull] (fresh 3 0) =
     Some ([Flag False, Flag False, Item 1],
           \<lparr>p_buffer = [1, 2, 0, 0], m_capacity = 2, m_position = 2\<rparr>)"
  by (simp add: fresh_three emplace_def pull_def slot_def store_def load_def is_overwrite_def
      is_empty_def)

lemma run_three_in:
  "run 3 [Emplace (1::nat), Emplace 2, Emplace 3] (fresh 3 0) =
     Some ([Flag False, Flag False, Flag True],
           \<lparr>p_buffer = [1, 2, 3, 0], m_capacity = 0, m_position = 3\<rparr>)"
  by (simp add: fresh_three emplace_def slot_def store_def is_overwrite_def)

subsection \<open>The capacity \<open>SIZE_MAX\<close>\<close>

lemma unat_SIZE_MAX: "unat SIZE_MAX = Suc 18446744073709551614"
  by (simp add: SIZE_MAX_def unsigned_minus_1_eq_mask mask_eq_exp_minus_1)

lemma SIZE_MAX_pos: "0 < unat SIZE_MAX"
  by (simp add: unat_SIZE_MAX)

lemma fresh_SIZE_MAX: "fresh SIZE_MAX d = \<lparr>p_buffer = [], m_capacity = SIZE_MAX, m_position = 0\<rparr>"
  by (simp add: fresh_def SIZE_MAX_def)

lemma emplace_SIZE_MAX: "emplace SIZE_MAX v \<lparr>p_buffer = [], m_capacity = c, m_position = 0\<rparr> = None"
  by (simp add: emplace_def slot_def store_def SIZE_MAX_def)

lemma first_emplace_SIZE_MAX:
  "rets SIZE_MAX (map Emplace (replicate (unat SIZE_MAX) v) @ cs)
     \<lparr>p_buffer = [], m_capacity = SIZE_MAX, m_position = 0\<rparr> = None"
  using first_call_fails [OF _ SIZE_MAX_pos, of SIZE_MAX "Emplace v"]
  by (simp add: emplace_SIZE_MAX)

text \<open>
  A capacity is below \<open>SIZE_MAX\<close> or equal to it; with the capacity \<open>SIZE_MAX\<close> every
  reachable state has the empty array, and its reset is the fresh buffer.
\<close>

lemma not_below_SIZE_MAX: "\<not> N < SIZE_MAX \<Longrightarrow> N = SIZE_MAX"
  using word_order.not_eq_extremum [of N] by (simp add: SIZE_MAX_def)

lemma reset_SIZE_MAX:
  assumes "run SIZE_MAX cs (fresh SIZE_MAX d) = Some (rs, s)"
  shows "reset SIZE_MAX s = fresh SIZE_MAX d"
  using run_length [OF assms] by (simp add: fresh_SIZE_MAX reset_eq)

section \<open>Invariants of the cursors\<close>

text \<open>
  C5: for every sequence of calls on a freshly constructed buffer of capacity \<open>N\<close>,
  \<open>size()\<close> stays within \<open>[0, N]\<close> in the state reached: \<open>m_capacity\<close> never exceeds
  the capacity, so \<open>capacity - m_capacity\<close> does not wrap around below \<open>0\<close>, and the
  result is at most \<open>N\<close>. The calls may be \<open>emplace\<close>, \<open>pull\<close> and also \<open>reset\<close>; every
  state on the way is the state reached by a prefix of the sequence.
\<close>

theorem size_within_capacity:
  assumes "run N cs (fresh N d) = Some (rs, s)"
  shows "m_capacity s \<le> N \<and> size_rb N s \<le> N \<and>
         unat (size_rb N s) + unat (m_capacity s) = unat N"
proof -
  have "m_capacity (fresh N d) \<le> N" by (simp add: fresh_def)
  with run_le [OF assms] have le: "m_capacity s \<le> N" .
  then have "unat (N - m_capacity s) = unat N - unat (m_capacity s)"
    by (simp add: unat_sub)
  moreover from le have "unat (m_capacity s) \<le> unat N" by (simp add: word_le_nat_alt)
  ultimately show ?thesis using le by (simp add: size_rb_def word_le_nat_alt)
qed

theorem size_within_capacity_witness:
  "run 3 [Emplace (1::nat), Emplace 2, Pull] (fresh 3 0) =
     Some ([Flag False, Flag False, Item 1],
           \<lparr>p_buffer = [1, 2, 0, 0], m_capacity = 2, m_position = 2\<rparr>) \<and>
   size_rb 3 \<lparr>p_buffer = [1, 2, 0, 0::nat], m_capacity = 2, m_position = 2\<rparr> \<le> 3 \<and>
   size_rb 3 \<lparr>p_buffer = [1, 2, 0, 0::nat], m_capacity = 2, m_position = 2\<rparr> = 1"
  using size_within_capacity [OF run_two_in_one_out] run_two_in_one_out
  by (simp add: size_rb_def)

text \<open>
  C6: \<open>is_empty()\<close> is true if and only if \<open>size() == 0\<close>, and \<open>is_full()\<close> is true if
  and only if \<open>size() == N\<close>. This holds in every state, reachable or not, and for every
  capacity.
\<close>

theorem empty_full_duality:
  "(is_empty N s \<longleftrightarrow> size_rb N s = 0) \<and> (is_full s \<longleftrightarrow> size_rb N s = N)"
  by (auto simp: is_empty_def is_full_def size_rb_def)

theorem empty_full_duality_witness:
  "is_empty 3 (fresh 3 (0::nat)) \<and> size_rb 3 (fresh 3 (0::nat)) = 0 \<and>
   \<not> is_full (fresh 3 (0::nat)) \<and> size_rb 3 (fresh 3 (0::nat)) \<noteq> 3"
  using empty_full_duality [of 3 "fresh 3 (0::nat)"]
  by (simp add: fresh_three is_empty_def is_full_def)

text \<open>
  C10: for every capacity \<open>N \<ge> 1\<close>, no state has \<open>is_empty()\<close> and \<open>is_full()\<close> both
  true; in particular no state reachable from construction has.
\<close>

theorem never_empty_and_full:
  "1 \<le> N \<Longrightarrow> \<not> (is_empty N s \<and> is_full s)"
  by (auto simp: is_empty_def is_full_def)

theorem never_empty_and_full_witness:
  "(1::size_t) \<le> 3 \<and> \<not> (is_empty 3 (fresh 3 (0::nat)) \<and> is_full (fresh 3 (0::nat)))"
  using never_empty_and_full [OF three_valid(1), of "fresh 3 (0::nat)"] three_valid(1)
  by simp

section \<open>Filling and draining\<close>

text \<open>
  The first writes after construction or \<open>reset\<close>: as long as at most \<open>N\<close> values have
  been written, they occupy the slots \<open>0, 1, ...\<close> in order, and the flag of the write
  number \<open>i + 1\<close> is true exactly when it is the \<open>N\<close>-th.
\<close>

lemma emplaces:
  assumes "N \<noteq> 0" and "length buf = Suc (unat N)" and "length vs \<le> unat N"
  shows "run N (map Emplace vs) \<lparr>p_buffer = buf, m_capacity = N, m_position = 0\<rparr> =
    Some (map (\<lambda>i. Flag (Suc i = unat N)) [0..<length vs],
          \<lparr>p_buffer = vs @ drop (length vs) buf,
           m_capacity = N - of_nat (length vs), m_position = of_nat (length vs)\<rparr>)"
  using assms(3)
proof (induction vs rule: rev_induct)
  case Nil
  then show ?case by simp
next
  case (snoc v vs)
  let ?k = "length vs"
  let ?s = "\<lparr>p_buffer = vs @ drop ?k buf, m_capacity = N - of_nat ?k, m_position = of_nat ?k\<rparr>"
  from snoc.prems have k: "?k < unat N" by simp
  then have kle: "?k \<le> unat N" and skle: "Suc ?k \<le> unat N" by simp_all
  have len: "length (p_buffer ?s) = Suc (unat N)" using assms(2) k by simp
  have idx: "unat (m_position ?s) mod unat N = ?k"
    using k by (simp add: unat_of_nat_cap [OF kle])
  have nz: "N - of_nat ?k \<noteq> 0"
    using k of_nat_eq_cap [OF kle] by simp
  have fl: "(N - (1 + of_nat ?k) = 0) = (Suc ?k = unat N)"
    using of_nat_eq_cap [OF skle] by auto
  have upd: "(vs @ drop ?k buf)[?k := v] = vs @ v # drop (Suc ?k) buf"
    using assms(2) k by (simp add: list_update_append upd_conv_take_nth_drop)
  have step: "emplace N v ?s =
    Some (Suc ?k = unat N,
          \<lparr>p_buffer = (vs @ [v]) @ drop (Suc ?k) buf,
           m_capacity = N - of_nat (Suc ?k), m_position = of_nat (Suc ?k)\<rparr>)"
    unfolding emplace_eq [OF assms(1) len] idx
    using nz fl upd by (simp add: is_overwrite_def Let_def algebra_simps)
  show ?case
    using snoc.IH [OF kle] step by (simp add: run_append)
qed

text \<open>Reads of a buffer that stays non-empty: the storage is left as it is.\<close>

lemma pulls:
  assumes "N \<noteq> 0" and "length buf = Suc (unat N)"
    and "\<forall>j<m. C + of_nat j \<noteq> N"
  shows "run N (replicate m Pull) \<lparr>p_buffer = buf, m_capacity = C, m_position = P\<rparr> =
    Some (map (\<lambda>j. Item (buf ! (unat (P + C + of_nat j - N) mod unat N))) [0..<m],
          \<lparr>p_buffer = buf, m_capacity = C + of_nat m, m_position = P\<rparr>)"
  using assms(3)
proof (induction m)
  case 0
  then show ?case by simp
next
  case (Suc m)
  let ?s = "\<lparr>p_buffer = buf, m_capacity = C + of_nat m, m_position = P\<rparr>"
  have rep: "replicate (Suc m) (Pull :: 'a call) = replicate m Pull @ [Pull]"
    by (simp add: replicate_append_same)
  have ne: "m_capacity ?s \<noteq> N" using Suc.prems by simp
  have len: "length (p_buffer ?s) = Suc (unat N)" using assms(2) by simp
  have step: "pull N ?s =
    Some (buf ! (unat (P + C + of_nat m - N) mod unat N),
          \<lparr>p_buffer = buf, m_capacity = C + of_nat (Suc m), m_position = P\<rparr>)"
    unfolding pull_nonempty_eq [OF assms(1) len ne] by (simp add: algebra_simps)
  have ih: "\<forall>j<m. C + of_nat j \<noteq> N" using Suc.prems by simp
  show ?case
    unfolding rep using Suc.IH [OF ih] step by (simp add: run_append)
qed

lemma fill_flags:
  "0 < n \<Longrightarrow> map (\<lambda>i. Flag (Suc i = n)) [0..<n] = replicate (n - 1) (Flag False) @ [Flag True]"
  by (rule nth_equalityI) (auto simp: nth_append)

text \<open>
  At most \<open>N\<close> writes and as many reads, from cursors at their initial values and any
  content of the storage.
\<close>

lemma fill_drain:
  assumes "N \<noteq> 0" and "length buf = Suc (unat N)" and "length vs \<le> unat N"
  shows "rets N (map Emplace vs @ replicate (length vs) Pull)
           \<lparr>p_buffer = buf, m_capacity = N, m_position = 0\<rparr> =
         Some (map (\<lambda>i. Flag (Suc i = unat N)) [0..<length vs] @ map Item vs)"
proof -
  let ?k = "length vs"
  let ?b = "vs @ drop ?k buf"
  have len: "length ?b = Suc (unat N)" using assms by simp
  have ne: "\<forall>j<?k. N - of_nat ?k + of_nat j \<noteq> N"
    using cap_sub_ne [OF _ assms(3)] by blast
  have item: "map (\<lambda>j. Item (?b ! (unat (of_nat ?k + (N - of_nat ?k) + of_nat j - N) mod unat N)))
                [0..<?k] = map Item vs"
  proof (rule nth_equalityI)
    show "length (map (\<lambda>j. Item (?b ! (unat (of_nat ?k + (N - of_nat ?k) + of_nat j - N) mod unat N)))
                [0..<?k]) = length (map Item vs)" by simp
  next
    fix i
    assume "i < length (map (\<lambda>j. Item (?b ! (unat (of_nat ?k + (N - of_nat ?k) + of_nat j - N) mod unat N)))
                [0..<?k])"
    then have i: "i < ?k" by simp
    with assms(3) have "i \<le> unat N" and "i < unat N" by simp_all
    then have "unat (of_nat i :: size_t) mod unat N = i"
      using unat_of_nat_cap [of i N] by simp
    with i show "map (\<lambda>j. Item (?b ! (unat (of_nat ?k + (N - of_nat ?k) + of_nat j - N) mod unat N)))
                [0..<?k] ! i = map Item vs ! i"
      by (simp add: nth_append)
  qed
  show ?thesis
    unfolding rets_def run_append
    using emplaces [OF assms] pulls [OF assms(1) len ne, of "of_nat ?k"] item
    by simp
qed

text \<open>
  One write more than the capacity: it lands in slot \<open>0\<close>, and the reads start at
  slot \<open>1\<close> and come round to slot \<open>0\<close> last.
\<close>

lemma over_items:
  assumes "length us = n" and "0 < n" and "length rest = Suc 0"
  shows "map (\<lambda>j. Item (((us @ rest)[0 := w]) ! (Suc j mod n))) [0..<n] = map Item (tl us @ [w])"
proof (rule nth_equalityI)
  show "length (map (\<lambda>j. Item (((us @ rest)[0 := w]) ! (Suc j mod n))) [0..<n]) =
        length (map Item (tl us @ [w]))"
    using assms by simp
next
  fix i
  assume "i < length (map (\<lambda>j. Item (((us @ rest)[0 := w]) ! (Suc j mod n))) [0..<n])"
  then have i: "i < n" by simp
  show "map (\<lambda>j. Item (((us @ rest)[0 := w]) ! (Suc j mod n))) [0..<n] ! i =
        map Item (tl us @ [w]) ! i"
  proof (cases "Suc i = n")
    case True
    then have "\<not> i < n - Suc 0" and "Suc i mod n = 0" by auto
    with assms i show ?thesis by (simp add: nth_append)
  next
    case False
    with i have "Suc i < n" and "i < n - Suc 0" by simp_all
    with assms i show ?thesis by (simp add: nth_append nth_tl)
  qed
qed

lemma fill_over_drain:
  assumes "N \<noteq> 0" and "length buf = Suc (unat N)" and "length us = unat N"
  shows "rets N (map Emplace (us @ [w]) @ replicate (unat N) Pull)
           \<lparr>p_buffer = buf, m_capacity = N, m_position = 0\<rparr> =
         Some (map (\<lambda>i. Flag (Suc i = unat N)) [0..<unat N] @ [Flag True] @ map Item (tl us @ [w]))"
proof -
  let ?n = "unat N"
  let ?b1 = "us @ drop ?n buf"
  let ?s1 = "\<lparr>p_buffer = ?b1, m_capacity = 0, m_position = N\<rparr>"
  let ?b2 = "?b1[0 := w]"
  let ?s2 = "\<lparr>p_buffer = ?b2, m_capacity = 0, m_position = N + 1\<rparr>"
  have pos: "0 < ?n" using assms(1) by (simp add: unat_gt_0)
  have le: "length us \<le> ?n" using assms(3) by simp
  have r1: "run N (map Emplace us) \<lparr>p_buffer = buf, m_capacity = N, m_position = 0\<rparr> =
            Some (map (\<lambda>i. Flag (Suc i = ?n)) [0..<?n], ?s1)"
    using emplaces [OF assms(1,2) le] assms(3) by simp
  have len1: "length (p_buffer ?s1) = Suc ?n" using assms by simp
  have r2: "emplace N w ?s1 = Some (True, ?s2)"
    unfolding emplace_eq [OF assms(1) len1] by (simp add: is_overwrite_def)
  have len2: "length ?b2 = Suc ?n" using assms by simp
  have ne: "\<forall>j<?n. 0 + of_nat j \<noteq> N"
    using of_nat_eq_cap [of _ N] by auto
  have idx: "\<And>j. j < ?n \<Longrightarrow> unat (N + 1 + 0 + of_nat j - N) mod ?n = Suc j mod ?n"
  proof -
    fix j
    assume "j < ?n"
    then have "Suc j \<le> ?n" by simp
    then have "unat (of_nat (Suc j) :: size_t) = Suc j" by (rule unat_of_nat_cap)
    then show "unat (N + 1 + 0 + of_nat j - N) mod ?n = Suc j mod ?n" by simp
  qed
  have rest: "length (drop ?n buf) = Suc 0" using assms(2) by simp
  have m: "map (\<lambda>j. Item (?b2 ! (unat (N + 1 + 0 + of_nat j - N) mod ?n))) [0..<?n] =
           map (\<lambda>j. Item (?b2 ! (Suc j mod ?n))) [0..<?n]"
    by (rule map_cong [OF refl]) (simp only: idx atLeastLessThan_iff set_upt)
  have r3: "run N (replicate ?n Pull) ?s2 =
            Some (map Item (tl us @ [w]),
                  \<lparr>p_buffer = ?b2, m_capacity = 0 + of_nat ?n, m_position = N + 1\<rparr>)"
    unfolding pulls [OF assms(1) len2 ne, of "N + 1"] m
    using over_items [OF assms(3) pos rest, of w] by simp
  show ?thesis
    unfolding rets_def
    using r1 r2 r3 by (simp add: run_append)
qed

section \<open>First in, first out\<close>

text \<open>
  C1, for the capacities whose storage exists: for every capacity \<open>N\<close> with
  \<open>1 \<le> N < SIZE_MAX\<close> and every \<open>k \<le> N\<close>, writing \<open>v1..vk\<close> into a freshly
  constructed buffer with \<open>emplace\<close> and then reading \<open>k\<close> times with \<open>pull\<close> returns
  \<open>v1..vk\<close> in exactly that order; the flag of a write is true exactly for the \<open>N\<close>-th.
\<close>

theorem fifo_no_overflow:
  assumes "1 \<le> N" and "N < SIZE_MAX" and "length vs \<le> unat N"
  shows "rets N (map Emplace vs @ replicate (length vs) Pull) (fresh N d) =
         Some (map (\<lambda>i. Flag (Suc i = unat N)) [0..<length vs] @ map Item vs)"
  unfolding fresh_def
  by (rule fill_drain [OF one_le_ne [OF assms(1)] fresh_length [OF assms(2)] assms(3)])

theorem fifo_no_overflow_witness:
  "(1::size_t) \<le> 3 \<and> (3::size_t) < SIZE_MAX \<and> length [10, 20, 30::nat] \<le> unat (3::size_t) \<and>
   rets 3 (map Emplace [10, 20, 30] @ replicate (length [10, 20, 30::nat]) Pull) (fresh 3 0) =
     Some [Flag False, Flag False, Flag True, Item (10::nat), Item 20, Item 30]"
proof -
  have len: "length [10, 20, 30::nat] \<le> unat (3::size_t)" by simp
  from fifo_no_overflow [OF three_valid len, of 0] show ?thesis
    using three_valid unfolding unat_three by simp
qed

text \<open>
  With the capacity \<open>SIZE_MAX\<close> the array has no slot, and already one write
  followed by one read is outside it.
\<close>

theorem fifo_no_overflow_counterexample:
  "(1::size_t) \<le> SIZE_MAX \<and> length [7::nat] \<le> unat SIZE_MAX \<and>
   rets SIZE_MAX (map Emplace [7] @ replicate (length [7::nat]) Pull) (fresh SIZE_MAX 0) = None"
  unfolding unat_SIZE_MAX
  by (simp add: fresh_SIZE_MAX emplace_SIZE_MAX rets_def) (simp add: SIZE_MAX_def)

text \<open>
  C2, for the capacities whose storage exists: for every capacity \<open>N\<close> with
  \<open>1 \<le> N < SIZE_MAX\<close>, writing \<open>N + 1\<close> values \<open>v1..v(N+1)\<close> into a freshly
  constructed buffer and then reading \<open>N\<close> times yields \<open>v2..v(N+1)\<close> in order, \<open>v1\<close>
  being lost; the flags of the writes are false \<open>N - 1\<close> times, then true for the
  \<open>N\<close>-th and true for the \<open>(N+1)\<close>-th write.
\<close>

theorem overwrite_oldest:
  assumes "1 \<le> N" and "N < SIZE_MAX" and "length vs = Suc (unat N)"
  shows "rets N (map Emplace vs @ replicate (unat N) Pull) (fresh N d) =
         Some (replicate (unat N - 1) (Flag False) @ [Flag True, Flag True] @ map Item (tl vs))"
proof -
  have nz: "N \<noteq> 0" by (rule one_le_ne [OF assms(1)])
  then have pos: "0 < unat N" by (simp add: unat_gt_0)
  from assms(3) have ne: "vs \<noteq> []" by auto
  then have split: "vs = butlast vs @ [last vs]" by simp
  have lb: "length (butlast vs) = unat N" using assms(3) by simp
  with pos have "butlast vs \<noteq> []" by (metis list.size(3) less_irrefl)
  then have tl: "tl (butlast vs) @ [last vs] = tl vs"
    using split by (metis tl_append2)
  have "rets N (map Emplace (butlast vs @ [last vs]) @ replicate (unat N) Pull) (fresh N d) =
         Some (replicate (unat N - 1) (Flag False) @ [Flag True, Flag True] @ map Item (tl vs))"
    unfolding fresh_def
    using fill_over_drain [OF nz fresh_length [OF assms(2), of d] lb, where w = "last vs"]
      fill_flags [OF pos]
    by (simp add: tl [symmetric])
  with split show ?thesis by simp
qed

theorem overwrite_oldest_witness:
  "(1::size_t) \<le> 3 \<and> (3::size_t) < SIZE_MAX \<and> length [1, 2, 3, 4::nat] = Suc (unat (3::size_t)) \<and>
   rets 3 (map Emplace [1, 2, 3, 4::nat] @ replicate (unat (3::size_t)) Pull) (fresh 3 0) =
     Some [Flag False, Flag False, Flag True, Flag True, Item (2::nat), Item 3, Item 4]"
proof -
  have len: "length [1, 2, 3, 4::nat] = Suc (unat (3::size_t))" by simp
  from overwrite_oldest [OF three_valid len, of 0] show ?thesis
    using three_valid unfolding unat_three by simp
qed

text \<open>With the capacity \<open>SIZE_MAX\<close> the first of the \<open>N + 1\<close> writes is outside the array.\<close>

theorem overwrite_oldest_counterexample:
  "(1::size_t) \<le> SIZE_MAX \<and>
   length (replicate (Suc (unat SIZE_MAX)) (7::nat)) = Suc (unat SIZE_MAX) \<and>
   rets SIZE_MAX (map Emplace (replicate (Suc (unat SIZE_MAX)) (7::nat)) @
       replicate (unat SIZE_MAX) Pull) (fresh SIZE_MAX 0) = None"
proof -
  have "rets SIZE_MAX (map Emplace (replicate (Suc (unat SIZE_MAX)) (7::nat)) @
       replicate (unat SIZE_MAX) Pull) (fresh SIZE_MAX 0) = None"
    unfolding fresh_SIZE_MAX replicate_Suc list.map append_Cons
    by (simp add: rets_def emplace_SIZE_MAX)
  then show ?thesis by (simp add: SIZE_MAX_def)
qed

text \<open>
  C3, for the capacities whose storage exists: for every capacity \<open>N\<close> with
  \<open>1 \<le> N < SIZE_MAX\<close> and every state reachable from construction, a write returns;
  it leaves \<open>m_capacity\<close> decremented if it was greater than \<open>0\<close> and at \<open>0\<close>
  otherwise, and its boolean result is true exactly when \<open>m_capacity\<close> is \<open>0\<close>
  afterwards: false when the decremented value is still nonzero, true when the decrement
  reaches \<open>0\<close> or the value was \<open>0\<close> on entry. On a freshly constructed buffer of
  such a capacity, the results of the first \<open>N\<close> writes are false repeated \<open>N - 1\<close>
  times followed by true.
\<close>

theorem fill_boundary_flag:
  "(1 \<le> N \<and> N < SIZE_MAX \<and> run N cs (fresh N d) = Some (rs, s) \<longrightarrow>
      (\<exists>b s'. emplace N v s = Some (b, s') \<and>
         m_capacity s' = (if 0 < m_capacity s then m_capacity s - 1 else 0) \<and>
         b = (m_capacity s' = 0))) \<and>
   (1 \<le> N \<and> N < SIZE_MAX \<and> length vs = unat N \<longrightarrow>
      rets N (map Emplace vs) (fresh N d) =
        Some (replicate (unat N - 1) (Flag False) @ [Flag True]))"
proof (intro conjI impI)
  assume h: "1 \<le> N \<and> N < SIZE_MAX \<and> run N cs (fresh N d) = Some (rs, s)"
  then have nz: "N \<noteq> 0" by (simp add: one_le_ne)
  from h have lt: "N < SIZE_MAX" and r: "run N cs (fresh N d) = Some (rs, s)" by simp_all
  have "sound N d s" by (rule run_sound [OF nz lt r])
  then have len: "length (p_buffer s) = Suc (unat N)" by (simp add: sound_def)
  let ?t = "s\<lparr>p_buffer := (p_buffer s)[unat (m_position s) mod unat N := v],
               m_position := m_position s + 1\<rparr>"
  have e: "emplace N v s = Some (fst (is_overwrite ?t), snd (is_overwrite ?t))"
    using emplace_eq [OF nz len, of v] by simp
  have c: "m_capacity (snd (is_overwrite ?t)) =
      (if 0 < m_capacity s then m_capacity s - 1 else 0)"
    by (simp add: is_overwrite_def Let_def word_gt_0)
  have f: "fst (is_overwrite ?t) = (m_capacity (snd (is_overwrite ?t)) = 0)"
    by (simp add: is_overwrite_def Let_def)
  from e c f show "\<exists>b s'. emplace N v s = Some (b, s') \<and>
         m_capacity s' = (if 0 < m_capacity s then m_capacity s - 1 else 0) \<and>
         b = (m_capacity s' = 0)"
    by blast
next
  assume h: "1 \<le> N \<and> N < SIZE_MAX \<and> length vs = unat N"
  then have nz: "N \<noteq> 0" by (simp add: one_le_ne)
  then have pos: "0 < unat N" by (simp add: unat_gt_0)
  from h have le: "length vs \<le> unat N" and lt: "N < SIZE_MAX" by simp_all
  show "rets N (map Emplace vs) (fresh N d) =
        Some (replicate (unat N - 1) (Flag False) @ [Flag True])"
    unfolding fresh_def rets_def
    using emplaces [OF nz fresh_length [OF lt, of d] le] fill_flags [OF pos] h
    by simp
qed

theorem fill_boundary_flag_witness:
  "(1::size_t) \<le> 3 \<and> (3::size_t) < SIZE_MAX \<and>
   run 3 [Emplace (1::nat), Emplace 2, Emplace 3] (fresh 3 0) =
     Some ([Flag False, Flag False, Flag True],
           \<lparr>p_buffer = [1, 2, 3, 0], m_capacity = 0, m_position = 3\<rparr>) \<and>
   (\<exists>b s'. emplace 3 (4::nat) \<lparr>p_buffer = [1, 2, 3, 0], m_capacity = 0, m_position = 3\<rparr> =
        Some (b, s') \<and> m_capacity s' = 0 \<and> b = True) \<and>
   length [1, 2, 3::nat] = unat (3::size_t) \<and>
   rets 3 (map Emplace [1, 2, 3::nat]) (fresh 3 (0::nat)) = Some [Flag False, Flag False, Flag True]"
proof -
  let ?S = "\<lparr>p_buffer = [1, 2, 3, 0::nat], m_capacity = 0, m_position = 3\<rparr>"
  have len: "length [1, 2, 3::nat] = unat (3::size_t)" by simp
  note t = fill_boundary_flag [of 3 "[Emplace (1::nat), Emplace 2, Emplace 3]" "0::nat"
      "[Flag False, Flag False, Flag True]" ?S "4::nat" "[1, 2, 3::nat]"]
  from t run_three_in three_valid
  have "\<exists>b s'. emplace 3 (4::nat) ?S = Some (b, s') \<and>
      m_capacity s' = (if 0 < m_capacity ?S then m_capacity ?S - 1 else 0) \<and>
      b = (m_capacity s' = 0)"
    by blast
  then have a: "\<exists>b s'. emplace 3 (4::nat) ?S = Some (b, s') \<and> m_capacity s' = 0 \<and> b = True"
    by auto
  from t len three_valid
  have "rets 3 (map Emplace [1, 2, 3::nat]) (fresh 3 (0::nat)) =
      Some (replicate (unat (3::size_t) - 1) (Flag False) @ [Flag True])"
    by blast
  then have b: "rets 3 (map Emplace [1, 2, 3::nat]) (fresh 3 (0::nat)) =
      Some [Flag False, Flag False, Flag True]"
    unfolding unat_three by simp
  show ?thesis
    by (intro conjI three_valid run_three_in a len b)
qed

text \<open>With the capacity \<open>SIZE_MAX\<close> the first \<open>N\<close> writes have no results.\<close>

theorem fill_boundary_flag_counterexample:
  "(1::size_t) \<le> SIZE_MAX \<and>
   length (replicate (unat SIZE_MAX) (7::nat)) = unat SIZE_MAX \<and>
   rets SIZE_MAX (map Emplace (replicate (unat SIZE_MAX) (7::nat))) (fresh SIZE_MAX 0) = None"
  using first_emplace_SIZE_MAX [of "7::nat" "[]"]
  by (simp add: fresh_SIZE_MAX) (simp add: SIZE_MAX_def)

text \<open>
  C7: \<open>reset()\<close> sets \<open>m_capacity\<close> to \<open>N\<close> and \<open>m_position\<close> to \<open>0\<close> and leaves the
  storage as it is; and for every capacity \<open>N \<ge> 1\<close> and every state reachable from
  construction, \<open>reset()\<close> followed by \<open>N\<close> writes of \<open>v1..vN\<close> and \<open>N\<close> reads returns
  exactly what the same writes and reads return on a freshly constructed buffer. For
  \<open>N < SIZE_MAX\<close> these results are the flags false \<open>N - 1\<close> times and then true, and
  the items \<open>v1..vN\<close>, so nothing stored before the reset is returned.
\<close>

theorem reset_like_fresh:
  assumes "1 \<le> N" and "run N cs (fresh N d) = Some (rs, s)" and "length vs = unat N"
  shows "reset N s = s\<lparr>m_capacity := N, m_position := 0\<rparr> \<and>
         p_buffer (reset N s) = p_buffer s \<and>
         rets N (map Emplace vs @ replicate (unat N) Pull) (reset N s) =
           rets N (map Emplace vs @ replicate (unat N) Pull) (fresh N d) \<and>
         (N < SIZE_MAX \<longrightarrow>
           rets N (map Emplace vs @ replicate (unat N) Pull) (reset N s) =
             Some (replicate (unat N - 1) (Flag False) @ [Flag True] @ map Item vs))"
proof (cases "N < SIZE_MAX")
  case True
  have nz: "N \<noteq> 0" by (rule one_le_ne [OF assms(1)])
  then have pos: "0 < unat N" by (simp add: unat_gt_0)
  have len: "length (p_buffer s) = Suc (unat N)"
    using run_sound [OF nz True assms(2)] by (simp add: sound_def)
  have le: "length vs \<le> unat N" using assms(3) by simp
  have a: "rets N (map Emplace vs @ replicate (unat N) Pull) (reset N s) =
           Some (replicate (unat N - 1) (Flag False) @ [Flag True] @ map Item vs)"
    unfolding reset_eq
    using fill_drain [OF nz len le] fill_flags [OF pos] assms(3) by simp
  have b: "rets N (map Emplace vs @ replicate (unat N) Pull) (fresh N d) =
           Some (replicate (unat N - 1) (Flag False) @ [Flag True] @ map Item vs)"
    unfolding fresh_def
    using fill_drain [OF nz fresh_length [OF True] le, of d] fill_flags [OF pos] assms(3)
    by simp
  show ?thesis using a b by (simp add: reset_def)
next
  case False
  then have N: "N = SIZE_MAX" by (rule not_below_SIZE_MAX)
  from assms(2) have "run SIZE_MAX cs (fresh SIZE_MAX d) = Some (rs, s)" unfolding N .
  then have "reset SIZE_MAX s = fresh SIZE_MAX d" by (rule reset_SIZE_MAX)
  then have eq: "reset N s = fresh N d" unfolding N .
  have "reset N s = s\<lparr>m_capacity := N, m_position := 0\<rparr>"
    and "p_buffer (reset N s) = p_buffer s"
    by (simp_all add: reset_def)
  with False eq show ?thesis by simp
qed

theorem reset_like_fresh_witness:
  "(1::size_t) \<le> 3 \<and> (3::size_t) < SIZE_MAX \<and>
   run 3 [Emplace (1::nat), Emplace 2, Pull] (fresh 3 0) =
     Some ([Flag False, Flag False, Item 1],
           \<lparr>p_buffer = [1, 2, 0, 0], m_capacity = 2, m_position = 2\<rparr>) \<and>
   length [7, 8, 9::nat] = unat (3::size_t) \<and>
   reset 3 \<lparr>p_buffer = [1, 2, 0, 0::nat], m_capacity = 2, m_position = 2\<rparr> =
     \<lparr>p_buffer = [1, 2, 0, 0], m_capacity = 3, m_position = 0\<rparr> \<and>
   rets 3 (map Emplace [7, 8, 9::nat] @ replicate (unat (3::size_t)) Pull)
     \<lparr>p_buffer = [1, 2, 0, 0], m_capacity = 3, m_position = 0\<rparr> =
     Some [Flag False, Flag False, Flag True, Item 7, Item 8, Item 9] \<and>
   rets 3 (map Emplace [7, 8, 9::nat] @ replicate (unat (3::size_t)) Pull) (fresh 3 0) =
     Some [Flag False, Flag False, Flag True, Item 7, Item 8, Item 9]"
proof -
  have len: "length [7, 8, 9::nat] = unat (3::size_t)" by simp
  have "rets 3 (map Emplace [7, 8, 9::nat] @ replicate (unat (3::size_t)) Pull)
       \<lparr>p_buffer = [1, 2, 0, 0], m_capacity = 3, m_position = 0\<rparr> =
     Some [Flag False, Flag False, Flag True, Item 7, Item 8, Item 9] \<and>
   rets 3 (map Emplace [7, 8, 9::nat] @ replicate (unat (3::size_t)) Pull) (fresh 3 0) =
     Some [Flag False, Flag False, Flag True, Item 7, Item 8, Item 9]"
    using reset_like_fresh [OF three_valid(1) run_two_in_one_out len] three_valid(2)
    unfolding unat_three by (auto simp add: reset_def)
  then show ?thesis using three_valid run_two_in_one_out len by (simp add: reset_def)
qed

section \<open>The sentinel slot\<close>

text \<open>
  C4, for the capacities whose storage exists: for every capacity \<open>N\<close> with
  \<open>1 \<le> N < SIZE_MAX\<close> and every state reachable from construction in which the buffer
  is empty, \<open>pull\<close> returns the default value \<open>d\<close> and leaves the whole state as it is
  (\<open>m_position\<close>, \<open>m_capacity\<close> and hence \<open>size()\<close> included); in particular on a freshly
  constructed and on a freshly reset buffer.
\<close>

theorem empty_pull_sentinel:
  assumes "1 \<le> N" and "N < SIZE_MAX" and "run N cs (fresh N d) = Some (rs, s)"
  shows "(is_empty N s \<longrightarrow> pull N s = Some (d, s)) \<and>
         pull N (fresh N d) = Some (d, fresh N d) \<and>
         pull N (reset N s) = Some (d, reset N s)"
proof -
  have nz: "N \<noteq> 0" by (rule one_le_ne [OF assms(1)])
  have s: "sound N d s" by (rule run_sound [OF nz assms(2,3)])
  have f: "sound N d (fresh N d)" by (rule sound_fresh [OF assms(2)])
  have r: "sound N d (reset N s)" by (rule sound_reset [OF s])
  have "\<And>t. sound N d t \<Longrightarrow> m_capacity t = N \<Longrightarrow> pull N t = Some (d, t)"
    by (simp add: pull_empty_eq sound_def)
  with s f r show ?thesis by (simp add: is_empty_def fresh_def reset_def)
qed

theorem empty_pull_sentinel_witness:
  "(1::size_t) \<le> 3 \<and> (3::size_t) < SIZE_MAX \<and>
   run 3 [Emplace (1::nat), Pull] (fresh 3 0) =
     Some ([Flag False, Item 1], \<lparr>p_buffer = [1, 0, 0, 0], m_capacity = 3, m_position = 1\<rparr>) \<and>
   is_empty 3 \<lparr>p_buffer = [1, 0, 0, 0::nat], m_capacity = 3, m_position = 1\<rparr> \<and>
   pull 3 \<lparr>p_buffer = [1, 0, 0, 0::nat], m_capacity = 3, m_position = 1\<rparr> =
     Some (0, \<lparr>p_buffer = [1, 0, 0, 0], m_capacity = 3, m_position = 1\<rparr>) \<and>
   pull 3 (fresh 3 (0::nat)) = Some (0, fresh 3 0)"
  using empty_pull_sentinel [OF three_valid run_one_in_one_out] three_valid run_one_in_one_out
  by (simp add: is_empty_def)

text \<open>
  With the capacity \<open>SIZE_MAX\<close> the freshly constructed buffer is empty and its read,
  of slot \<open>SIZE_MAX\<close>, is outside the array.
\<close>

theorem empty_pull_sentinel_counterexample:
  "(1::size_t) \<le> SIZE_MAX \<and> is_empty SIZE_MAX (fresh SIZE_MAX (0::nat)) \<and>
   pull SIZE_MAX (fresh SIZE_MAX (0::nat)) = None"
  by (simp add: fresh_SIZE_MAX is_empty_def pull_def load_def) (simp add: SIZE_MAX_def)

text \<open>
  C8, for the capacities whose storage exists: for every capacity \<open>N\<close> with
  \<open>1 \<le> N < SIZE_MAX\<close>, in every state reachable from construction by writes, reads and
  resets, slot \<open>N\<close> holds the default value \<open>d\<close>; the slot a write stores into is never
  slot \<open>N\<close>, a write leaves \<open>d\<close> in slot \<open>N\<close>, and a read of the empty buffer returns \<open>d\<close>.
\<close>

theorem sentinel_slot_default:
  assumes "1 \<le> N" and "N < SIZE_MAX" and "run N cs (fresh N d) = Some (rs, s)"
  shows "load (p_buffer s) (unat N) = Some d \<and>
         slot (m_position s) N \<noteq> Some (unat N) \<and>
         (\<exists>b s'. emplace N v s = Some (b, s') \<and> load (p_buffer s') (unat N) = Some d) \<and>
         (is_empty N s \<longrightarrow> map_option fst (pull N s) = Some d)"
proof -
  have nz: "N \<noteq> 0" by (rule one_le_ne [OF assms(1)])
  have s: "sound N d s" by (rule run_sound [OF nz assms(2,3)])
  have a: "load (p_buffer s) (unat N) = Some d"
    using s by (simp add: sound_def load_def)
  have b: "slot (m_position s) N \<noteq> Some (unat N)"
    using slot_lt [OF nz, of "m_position s"] by (simp add: slot_eq [OF nz])
  from sound_emplace [OF nz s, of v] obtain b' s' where
    e: "emplace N v s = Some (b', s')" and s': "sound N d s'" by blast
  from s' have c: "load (p_buffer s') (unat N) = Some d" by (simp add: sound_def load_def)
  have p: "is_empty N s \<longrightarrow> map_option fst (pull N s) = Some d"
    using s by (simp add: is_empty_def pull_empty_eq sound_def)
  from a b e c p show ?thesis by blast
qed

theorem sentinel_slot_default_witness:
  "(1::size_t) \<le> 3 \<and> (3::size_t) < SIZE_MAX \<and>
   run 3 [Emplace (1::nat), Pull] (fresh 3 0) =
     Some ([Flag False, Item 1], \<lparr>p_buffer = [1, 0, 0, 0], m_capacity = 3, m_position = 1\<rparr>) \<and>
   load [1, 0, 0, 0::nat] (unat (3::size_t)) = Some 0 \<and>
   is_empty 3 \<lparr>p_buffer = [1, 0, 0, 0::nat], m_capacity = 3, m_position = 1\<rparr> \<and>
   map_option fst (pull 3 \<lparr>p_buffer = [1, 0, 0, 0::nat], m_capacity = 3, m_position = 1\<rparr>) = Some 0"
  using sentinel_slot_default [OF three_valid run_one_in_one_out, of 5] three_valid
    run_one_in_one_out
  by (simp add: is_empty_def)

text \<open>With the capacity \<open>SIZE_MAX\<close> the array is empty: there is no slot \<open>N\<close>.\<close>

theorem sentinel_slot_default_counterexample:
  "(1::size_t) \<le> SIZE_MAX \<and> p_buffer (fresh SIZE_MAX (0::nat)) = [] \<and>
   load (p_buffer (fresh SIZE_MAX (0::nat))) (unat SIZE_MAX) = None"
  by (simp add: fresh_SIZE_MAX load_def) (simp add: SIZE_MAX_def)

section \<open>The index of a read\<close>

lemma counted_emplace:
  assumes "emplace N v s = Some (b, s')" and "counted N n s"
  shows "counted N (Suc n) s'"
proof -
  from assms(1) have "\<exists>t. is_overwrite t = (b, s') \<and> m_capacity t = m_capacity s \<and>
      m_position t = m_position s + 1"
    by (auto simp: emplace_def split: option.splits)
  then obtain t where t: "is_overwrite t = (b, s')" and c: "m_capacity t = m_capacity s"
    and p: "m_position t = m_position s + 1" by blast
  show ?thesis
  proof (cases "m_capacity s = 0")
    case True
    with t c p assms(2) show ?thesis
      by (auto simp: is_overwrite_def counted_def)
  next
    case False
    then have "unat (m_capacity s - 1) = unat (m_capacity s) - 1"
      by (simp add: unat_minus_one)
    with False t c p assms(2) show ?thesis
      by (auto simp: is_overwrite_def Let_def counted_def dec_le)
  qed
qed

lemma counted_pull:
  assumes "pull N s = Some (x, s')" and "counted N n s"
  shows "counted N n s'"
proof (cases "m_capacity s = N")
  case True
  with assms show ?thesis
    by (auto simp: pull_def is_empty_def)
next
  case False
  with assms(2) have lt: "m_capacity s < N" by (simp add: counted_def order_less_le)
  then have "m_capacity s + 1 \<le> N" by (rule inc_le)
  moreover from lt have "unat (m_capacity s + 1) = Suc (unat (m_capacity s))"
    by unat_arith
  moreover from False assms(1) have "m_capacity s' = m_capacity s + 1"
      and "m_position s' = m_position s"
    by (auto simp: pull_def is_empty_def split: option.splits)
  ultimately show ?thesis using assms(2) by (auto simp: counted_def)
qed

lemma counted_reset: "counted N 0 (reset N s)"
  by (simp add: counted_def reset_def)

lemma counted_fresh: "counted N 0 (fresh N d)"
  by (simp add: counted_def fresh_def)

lemma counted_run:
  "run N cs s = Some (rs, s') \<Longrightarrow> counted N n s \<Longrightarrow> counted N (count_writes n cs) s'"
proof (induction n cs arbitrary: s rs rule: count_writes.induct)
  case (1 n)
  then show ?case by simp
next
  case (2 n v cs)
  from "2.prems"(1) obtain b t rs' where e: "emplace N v s = Some (b, t)"
    and r: "run N cs t = Some (rs', s')"
    by (auto split: option.splits)
  from "2.IH" [OF r counted_emplace [OF e "2.prems"(2)]] show ?case by simp
next
  case (3 n cs)
  from "3.prems"(1) obtain x t rs' where e: "pull N s = Some (x, t)"
    and r: "run N cs t = Some (rs', s')"
    by (auto split: option.splits)
  from "3.IH" [OF r counted_pull [OF e "3.prems"(2)]] show ?case by simp
next
  case (4 n cs)
  from "4.prems"(1) obtain rs' where r: "run N cs (reset N s) = Some (rs', s')"
    by (auto split: option.splits)
  from "4.IH" [OF r counted_reset] show ?case by simp
qed

text \<open>
  C9, as long as the cursors do not wrap around: in every state reachable from
  construction by writes, reads and resets, the number of pending elements,
  \<open>N - m_capacity\<close>, never exceeds the number of writes performed since the last reset;
  when that number of writes plus the current \<open>m_capacity\<close> is below \<open>2 ^ 64\<close>, the
  index expression \<open>m_position + m_capacity - capacity\<close> of a read, evaluated in
  \<open>std::size_t\<close>, neither overflows in its addition nor goes below \<open>0\<close> in its
  subtraction, and its value is the number of writes minus the number of pending
  elements; and in every reachable state the index it denotes after \<open>% capacity\<close> is a
  slot in \<open>[0, N - 1]\<close>.
\<close>

theorem pull_index_in_range:
  assumes "1 \<le> N" and "run N cs (fresh N d) = Some (rs, s)"
  shows "unat (size_rb N s) \<le> count_writes 0 cs \<and>
         (count_writes 0 cs + unat (m_capacity s) < 2 ^ 64 \<longrightarrow>
            unat (m_position s) + unat (m_capacity s) < 2 ^ 64 \<and>
            N \<le> m_position s + m_capacity s \<and>
            unat (m_position s + m_capacity s - N) = count_writes 0 cs - unat (size_rb N s)) \<and>
         (\<exists>i. slot (m_position s + m_capacity s - N) N = Some i \<and> i < unat N)"
proof -
  let ?n = "count_writes 0 cs"
  have nz: "N \<noteq> 0" by (rule one_le_ne [OF assms(1)])
  from counted_run [OF assms(2) counted_fresh]
  have p: "m_position s = of_nat ?n" and le: "m_capacity s \<le> N"
    and c: "unat N - unat (m_capacity s) \<le> ?n"
    by (simp_all add: counted_def)
  from le have cle: "unat (m_capacity s) \<le> unat N" by (simp add: word_le_nat_alt)
  from le have sz: "unat (size_rb N s) = unat N - unat (m_capacity s)"
    by (simp add: size_rb_def unat_sub)
  have a: "unat (size_rb N s) \<le> ?n" using sz c by simp
  have b: "?n + unat (m_capacity s) < 2 ^ 64 \<longrightarrow>
            unat (m_position s) + unat (m_capacity s) < 2 ^ 64 \<and>
            N \<le> m_position s + m_capacity s \<and>
            unat (m_position s + m_capacity s - N) = ?n - unat (size_rb N s)"
  proof
    assume lt: "?n + unat (m_capacity s) < 2 ^ 64"
    then have "?n < 2 ^ 64" by simp
    then have up: "unat (m_position s) = ?n" using p by (simp add: unat_of_nat take_bit_nat_eq_self)
    with lt have no: "unat (m_position s) + unat (m_capacity s) < 2 ^ LENGTH(64)" by simp
    then have sum: "unat (m_position s + m_capacity s) = ?n + unat (m_capacity s)"
      using up by (simp add: unat_add_lem [THEN iffD1])
    from c cle have ge: "unat N \<le> ?n + unat (m_capacity s)" by simp
    with sum have nle: "N \<le> m_position s + m_capacity s" by (simp add: word_le_nat_alt)
    then have "unat (m_position s + m_capacity s - N) = ?n + unat (m_capacity s) - unat N"
      using sum by (simp add: unat_sub)
    also have "\<dots> = ?n - unat (size_rb N s)" using sz cle ge by simp
    finally show "unat (m_position s) + unat (m_capacity s) < 2 ^ 64 \<and>
            N \<le> m_position s + m_capacity s \<and>
            unat (m_position s + m_capacity s - N) = ?n - unat (size_rb N s)"
      using no nle by simp
  qed
  have i: "\<exists>i. slot (m_position s + m_capacity s - N) N = Some i \<and> i < unat N"
    using slot_lt [OF nz] by (simp add: slot_eq [OF nz])
  from a b i show ?thesis by blast
qed

theorem pull_index_in_range_witness:
  "(1::size_t) \<le> 3 \<and>
   run 3 [Emplace (1::nat), Emplace 2, Pull] (fresh 3 0) =
     Some ([Flag False, Flag False, Item 1],
           \<lparr>p_buffer = [1, 2, 0, 0], m_capacity = 2, m_position = 2\<rparr>) \<and>
   count_writes 0 [Emplace (1::nat), Emplace 2, Pull] = 2 \<and>
   (2::nat) + unat (2::size_t) < 2 ^ 64 \<and>
   unat (size_rb 3 \<lparr>p_buffer = [1, 2, 0, 0::nat], m_capacity = 2, m_position = 2\<rparr>) \<le> 2 \<and>
   (3::size_t) \<le> 2 + 2 \<and>
   unat ((2::size_t) + 2 - 3) = 1 \<and>
   slot (2 + 2 - 3) 3 = Some 1"
proof -
  have c: "count_writes 0 [Emplace (1::nat), Emplace 2, Pull] = 2" by simp
  from pull_index_in_range [OF three_valid(1) run_two_in_one_out]
  show ?thesis using three_valid(1) run_two_in_one_out c by (simp add: slot_def)
qed

text \<open>
  After \<open>2 ^ 64 - 1\<close> writes and one read on a buffer of capacity \<open>3\<close>, fewer than
  \<open>2 ^ 64\<close> writes were performed and two elements are pending, but the addition
  \<open>m_position + m_capacity\<close> wraps around to \<open>0\<close>: the index expression of the next
  read, \<open>0 - 3\<close>, is below \<open>0\<close> and wraps around.
\<close>

lemma update_same: "set buf \<subseteq> {d} \<Longrightarrow> buf[i := d] = buf"
  by (induction buf arbitrary: i) (auto split: nat.splits)

lemma writes_when_full:
  assumes "N \<noteq> 0" and "length buf = Suc (unat N)" and "set buf \<subseteq> {d}"
  shows "final N (replicate k (Emplace d)) \<lparr>p_buffer = buf, m_capacity = 0, m_position = p\<rparr> =
         Some \<lparr>p_buffer = buf, m_capacity = 0, m_position = p + of_nat k\<rparr>"
proof (induction k arbitrary: p)
  case 0
  then show ?case by (simp add: final_def)
next
  case (Suc k)
  let ?s = "\<lparr>p_buffer = buf, m_capacity = 0, m_position = p\<rparr>"
  have len: "length (p_buffer ?s) = Suc (unat N)" using assms(2) by simp
  have e: "emplace N d ?s = Some (True, \<lparr>p_buffer = buf, m_capacity = 0, m_position = p + 1\<rparr>)"
    unfolding emplace_eq [OF assms(1) len]
    using update_same [OF assms(3)] by (simp add: is_overwrite_def)
  from Suc.IH [of "p + 1"] e show ?case
    by (simp add: final_Cons algebra_simps)
qed

lemma fill_three:
  "final 3 [Emplace (0::nat), Emplace 0, Emplace 0] (fresh 3 0) =
     Some \<lparr>p_buffer = [0, 0, 0, 0], m_capacity = 0, m_position = 3\<rparr>"
  by (simp add: final_def fresh_three emplace_def slot_def store_def is_overwrite_def)

lemma count_writes_replicate:
  "count_writes n (replicate k (Emplace v) @ cs) = count_writes (n + k) cs"
  by (induction k arbitrary: n) simp_all

theorem pull_index_counterexample:
  "final 3 (replicate (2 ^ 64 - 1) (Emplace (0::nat)) @ [Pull]) (fresh 3 0) =
     Some \<lparr>p_buffer = [0, 0, 0, 0], m_capacity = 1, m_position = - 1\<rparr> \<and>
   count_writes 0 (replicate (2 ^ 64 - 1) (Emplace (0::nat)) @ [Pull]) < 2 ^ 64 \<and>
   \<not> is_empty 3 \<lparr>p_buffer = [0, 0, 0, 0::nat], m_capacity = 1, m_position = - 1\<rparr> \<and>
   \<not> (3::size_t) \<le> m_position \<lparr>p_buffer = [0, 0, 0, 0::nat], m_capacity = 1, m_position = - 1\<rparr> +
       m_capacity \<lparr>p_buffer = [0, 0, 0, 0::nat], m_capacity = 1, m_position = - 1\<rparr>"
proof -
  let ?w = "Emplace (0::nat)"
  let ?k = "(2::nat) ^ 64 - 4"
  let ?F = "\<lparr>p_buffer = [0, 0, 0, 0::nat], m_capacity = 0, m_position = - 1\<rparr>"
  have "(2::nat) ^ 64 - 1 = Suc (Suc (Suc 0)) + ?k" by simp
  then have "replicate (2 ^ 64 - 1) ?w = replicate (Suc (Suc (Suc 0))) ?w @ replicate ?k ?w"
    by (metis replicate_add)
  then have split: "replicate (2 ^ 64 - 1) ?w = [?w, ?w, ?w] @ replicate ?k ?w"
    by (simp only: replicate_Suc replicate_0)
  have wrap: "(3::size_t) + of_nat ?k = - 1"
    by simp
  have "final 3 (replicate ?k ?w) \<lparr>p_buffer = [0, 0, 0, 0], m_capacity = 0, m_position = 3\<rparr> =
     Some \<lparr>p_buffer = [0, 0, 0, 0], m_capacity = 0, m_position = 3 + of_nat ?k\<rparr>"
    by (rule writes_when_full) simp_all
  then have rest: "final 3 (replicate ?k ?w)
      \<lparr>p_buffer = [0, 0, 0, 0], m_capacity = 0, m_position = 3\<rparr> = Some ?F"
    by (simp only: wrap)
  have full: "final 3 (replicate (2 ^ 64 - 1) ?w) (fresh 3 0) = Some ?F"
    by (simp only: split final_append fill_three rest option.case)
  have "pull 3 ?F = Some (p_buffer ?F ! (unat (m_position ?F + m_capacity ?F - 3) mod unat (3::size_t)),
      ?F\<lparr>m_capacity := m_capacity ?F + 1\<rparr>)"
    by (rule pull_nonempty_eq) simp_all
  then have "final 3 [Pull] ?F =
      Some \<lparr>p_buffer = [0, 0, 0, 0], m_capacity = 1, m_position = - 1\<rparr>"
    by (simp add: final_def)
  with full have run: "final 3 (replicate (2 ^ 64 - 1) ?w @ [Pull]) (fresh 3 0) =
      Some \<lparr>p_buffer = [0, 0, 0, 0], m_capacity = 1, m_position = - 1\<rparr>"
    by (simp only: final_append option.case)
  have cnt: "count_writes 0 (replicate (2 ^ 64 - 1) ?w @ [Pull]) < 2 ^ 64"
    by (simp only: count_writes_replicate) simp
  from run cnt show ?thesis by (simp add: is_empty_def)
qed

end
